theory Spec2Isabelle
  imports Main
begin

section \<open>Values held by the squares array\<close>

text \<open>
  The game logic of \<^verbatim>\<open>src/frontend_tic_tac_toe/src/App.js\<close>. A square holds
  \<^verbatim>\<open>"X"\<close>, \<^verbatim>\<open>"O"\<close> or \<^verbatim>\<open>null\<close>; a read past the end of the array
  gives \<^verbatim>\<open>undefined\<close>. A hole of a sparse array is identified with
  \<^verbatim>\<open>undefined\<close>: the code only reads slots (a hole reads as \<^verbatim>\<open>undefined\<close>),
  copies the array with a spread (which turns holes into \<^verbatim>\<open>undefined\<close>) and
  tests \<^verbatim>\<open>v !== null\<close> with \<^verbatim>\<open>every\<close> (which skips a hole, and is
  true of \<^verbatim>\<open>undefined\<close>).
\<close>

text \<open>The strings \<^verbatim>\<open>"X"\<close> and \<^verbatim>\<open>"O"\<close>.\<close>

datatype mark = MarkX | MarkO

datatype cell = Undefined | Null | Mark mark

text \<open>JavaScript truthiness of a slot: the two non-empty strings are truthy.\<close>

fun truthy :: "cell \<Rightarrow> bool" where
  "truthy (Mark m) = True"
| "truthy Null = False"
| "truthy Undefined = False"

section \<open>JavaScript arrays\<close>

text \<open>
  An array object has its indexed elements and, besides them, ordinary properties:
  a key that is not an array index (a negative integer, or one from \<open>2\<^sup>3\<^sup>2 - 1\<close> on)
  is stored as a property and does not change the length. Indices are mathematical
  integers here; a JavaScript number represents them exactly up to \<open>2\<^sup>5\<^sup>3\<close>.
\<close>

record jsarray =
  elems :: "cell list"
  props :: "int \<Rightarrow> cell option"

definition is_index :: "int \<Rightarrow> bool" where
  "is_index i = (0 \<le> i \<and> i < 4294967295)"

text \<open>\<^verbatim>\<open>a[i]\<close>\<close>

definition read_at :: "jsarray \<Rightarrow> int \<Rightarrow> cell" where
  "read_at a i =
     (if is_index i
      then (if nat i < length (elems a) then elems a ! nat i else Undefined)
      else (case props a i of Some v \<Rightarrow> v | None \<Rightarrow> Undefined))"

text \<open>\<^verbatim>\<open>a[i] = v\<close>: an index past the end extends the array, leaving holes.\<close>

definition write_at :: "jsarray \<Rightarrow> int \<Rightarrow> cell \<Rightarrow> jsarray" where
  "write_at a i v =
     (if is_index i
      then (if nat i < length (elems a)
            then a\<lparr>elems := (elems a)[nat i := v]\<rparr>
            else a\<lparr>elems := elems a @ replicate (nat i - length (elems a)) Undefined @ [v]\<rparr>)
      else a\<lparr>props := (props a)(i \<mapsto> v)\<rparr>)"

text \<open>\<^verbatim>\<open>[...a]\<close>: a fresh array of the indexed elements only.\<close>

definition spread :: "jsarray \<Rightarrow> jsarray" where
  "spread a = \<lparr>elems = elems a, props = Map.empty\<rparr>"

text \<open>\<^verbatim>\<open>Array(9).fill(null)\<close>\<close>

definition empty_board :: jsarray where
  "empty_board = \<lparr>elems = replicate 9 Null, props = Map.empty\<rparr>"

section \<open>Winner evaluation\<close>

type_synonym line = "int \<times> int \<times> int"

definition WIN_LINES :: "line list" where
  "WIN_LINES =
     [(0, 1, 2), (3, 4, 5), (6, 7, 8),
      (0, 3, 6), (1, 4, 7), (2, 5, 8),
      (0, 4, 8), (2, 4, 6)]"

record result =
  winner :: cell
  line :: "line option"

text \<open>The \<^verbatim>\<open>for (const line of WIN_LINES)\<close> loop of \<^verbatim>\<open>calculateWinner\<close>.\<close>

fun calculateWinner_loop :: "jsarray \<Rightarrow> line list \<Rightarrow> result" where
  "calculateWinner_loop squares [] = \<lparr>winner = Null, line = None\<rparr>"
| "calculateWinner_loop squares ((a, b, c) # rest) =
     (if truthy (read_at squares a) \<and> read_at squares a = read_at squares b
         \<and> read_at squares a = read_at squares c
      then \<lparr>winner = read_at squares a, line = Some (a, b, c)\<rparr>
      else calculateWinner_loop squares rest)"

definition calculateWinner :: "jsarray \<Rightarrow> result" where
  "calculateWinner squares = calculateWinner_loop squares WIN_LINES"

text \<open>\<^verbatim>\<open>squares.every((v) => v !== null)\<close>\<close>

definition isBoardFull :: "jsarray \<Rightarrow> bool" where
  "isBoardFull squares = list_all (\<lambda>v. v \<noteq> Null) (elems squares)"

section \<open>The component state and its handlers\<close>

text \<open>
  Scores are counters that start at 0 and only grow by 1, so they are natural numbers
  (exact as JavaScript numbers below \<open>2\<^sup>5\<^sup>3\<close>).
\<close>

record scores =
  scoreX :: nat
  scoreO :: nat
  draws :: nat

record state =
  squares :: jsarray
  xIsNext :: bool
  scores :: scores

definition zero_scores :: scores where
  "zero_scores = \<lparr>scoreX = 0, scoreO = 0, draws = 0\<rparr>"

text \<open>The three \<^verbatim>\<open>useState\<close> initial values.\<close>

definition initial :: state where
  "initial = \<lparr>squares = empty_board, xIsNext = True, scores = zero_scores\<rparr>"

text \<open>The values derived from \<^verbatim>\<open>squares\<close> on every render.\<close>

definition draw :: "jsarray \<Rightarrow> bool" where
  "draw sq = (\<not> truthy (winner (calculateWinner sq)) \<and> isBoardFull sq)"

definition gameOver :: "jsarray \<Rightarrow> bool" where
  "gameOver sq = (truthy (winner (calculateWinner sq)) \<or> draw sq)"

definition currentPlayer :: "state \<Rightarrow> mark" where
  "currentPlayer s = (if xIsNext s then MarkX else MarkO)"

text \<open>
  The two \<^verbatim>\<open>setScores\<close> updaters:
  \<^verbatim>\<open>{ ...s, [winner]: s[winner] + 1 }\<close> and \<^verbatim>\<open>{ ...s, draws: s.draws + 1 }\<close>.
\<close>

fun add_win :: "mark \<Rightarrow> scores \<Rightarrow> scores" where
  "add_win MarkX s = s\<lparr>scoreX := scoreX s + 1\<rparr>"
| "add_win MarkO s = s\<lparr>scoreO := scoreO s + 1\<rparr>"

definition add_draw :: "scores \<Rightarrow> scores" where
  "add_draw s = s\<lparr>draws := draws s + 1\<rparr>"

text \<open>
  The updater passed to \<^verbatim>\<open>setSquares\<close> in \<^verbatim>\<open>handleSquareClickWithScore\<close>.
  It returns \<^verbatim>\<open>next\<close> and, as a side effect, calls \<^verbatim>\<open>setScores\<close> at most
  once; the model returns the pair of \<^verbatim>\<open>next\<close> and the score updates that one
  invocation of the updater enqueues.
\<close>

datatype score_update = AddWin mark | AddDraw

fun apply_score_update :: "score_update \<Rightarrow> scores \<Rightarrow> scores" where
  "apply_score_update (AddWin w) s = add_win w s"
| "apply_score_update AddDraw s = add_draw s"

definition squares_updater :: "bool \<Rightarrow> int \<Rightarrow> jsarray \<Rightarrow> jsarray \<times> score_update list" where
  "squares_updater x_next index prev =
     (let next = write_at (spread prev) index (Mark (if x_next then MarkX else MarkO));
          nextResult = calculateWinner next;
          nextDraw = (\<not> truthy (winner nextResult) \<and> isBoardFull next)
      in (next,
          (case winner nextResult of
             Mark w \<Rightarrow> [AddWin w]
           | _ \<Rightarrow> if nextDraw then [AddDraw] else [])))"

text \<open>
  \<^verbatim>\<open>handleSquareClickWithScore\<close>, the handler bound to \<^verbatim>\<open>onSquareClick\<close>.
  Events are handled one at a time, each against the state of the latest render, so
  the updater's \<^verbatim>\<open>prev\<close> is the rendered \<^verbatim>\<open>squares\<close>.

  React invokes an updater function once to compute the next state and may invoke it
  again: under \<^verbatim>\<open><React.StrictMode>\<close> in a development build it invokes it twice.
  How the component is mounted is not part of \<^verbatim>\<open>App.js\<close>, so the number of
  further invocations of the \<^verbatim>\<open>setSquares\<close> updater is the parameter
  \<open>reruns\<close>: 0 on a plain mount, 1 under StrictMode. The updaters of
  \<^verbatim>\<open>setXIsNext\<close> and \<^verbatim>\<open>setScores\<close> are pure, so invoking them again changes
  nothing. The \<^verbatim>\<open>setSquares\<close> updater returns the same \<^verbatim>\<open>next\<close> every time,
  but every invocation enqueues its score updates again, and all of them are applied.
\<close>

definition handleSquareClickWithScore :: "nat \<Rightarrow> state \<Rightarrow> int \<Rightarrow> state" where
  "handleSquareClickWithScore reruns s index =
     (if gameOver (squares s) then s
      else if truthy (read_at (squares s) index) then s
      else
        let (next, enqueued) = squares_updater (xIsNext s) index (squares s)
        in \<lparr>squares = next,
            xIsNext = (\<not> xIsNext s),
            scores =
              fold apply_score_update (concat (replicate (Suc reruns) enqueued)) (scores s)\<rparr>)"

text \<open>\<^verbatim>\<open>restartGame({ keepScores })\<close>\<close>

definition restartGame :: "bool \<Rightarrow> state \<Rightarrow> state" where
  "restartGame keepScores s =
     \<lparr>squares = empty_board,
      xIsNext = True,
      scores = (if \<not> keepScores then zero_scores else scores s)\<rparr>"

text \<open>
  Sequences of user events, applied from left to right. A click carries the index of
  the square and the number of further invocations of the updater on that click.
\<close>

datatype event = Click int nat | Restart bool

fun step :: "state \<Rightarrow> event \<Rightarrow> state" where
  "step s (Click i reruns) = handleSquareClickWithScore reruns s i"
| "step s (Restart keepScores) = restartGame keepScores s"

definition run :: "state \<Rightarrow> event list \<Rightarrow> state" where
  "run s es = foldl step s es"

text \<open>Clicks on a plain mount, and clicks under StrictMode in development.\<close>

definition plain_clicks :: "int list \<Rightarrow> event list" where
  "plain_clicks js = map (\<lambda>i. Click i 0) js"

definition strict_clicks :: "int list \<Rightarrow> event list" where
  "strict_clicks js = map (\<lambda>i. Click i 1) js"

section \<open>Notions of the specification\<close>

text \<open>
  A line wins on a board when its three cells hold the same non-empty mark.
\<close>

definition same_mark :: "jsarray \<Rightarrow> line \<Rightarrow> bool" where
  "same_mark sq l =
     (case l of (a, b, c) \<Rightarrow>
        (case read_at sq a of
           Mark m \<Rightarrow> read_at sq b = Mark m \<and> read_at sq c = Mark m
         | _ \<Rightarrow> False))"

text \<open>The number of squares that hold a given mark.\<close>

definition count_mark :: "mark \<Rightarrow> jsarray \<Rightarrow> nat" where
  "count_mark m sq = length (filter (\<lambda>v. v = Mark m) (elems sq))"

text \<open>A board: nine cells, each \<^verbatim>\<open>null\<close> or a mark.\<close>

definition is_board :: "jsarray \<Rightarrow> bool" where
  "is_board sq = (length (elems sq) = 9 \<and> list_all (\<lambda>v. v \<noteq> Undefined) (elems sq))"

text \<open>An event whose click, if it is one, is on one of the squares 0 to 8.\<close>

definition in_range_event :: "event \<Rightarrow> bool" where
  "in_range_event e =
     (case e of Click i reruns \<Rightarrow> 0 \<le> i \<and> i \<le> 8 | Restart keepScores \<Rightarrow> True)"

text \<open>An event that is a click (and not a restart).\<close>

definition is_click :: "event \<Rightarrow> bool" where
  "is_click e = (case e of Click i reruns \<Rightarrow> True | Restart keepScores \<Rightarrow> False)"

text \<open>
  The invariant of play on the nine squares: X has as many marks as O when X is next,
  and one more when O is next.
\<close>

definition turn_inv :: "state \<Rightarrow> bool" where
  "turn_inv s =
     (is_board (squares s)
      \<and> count_mark MarkX (squares s)
          = count_mark MarkO (squares s) + (if xIsNext s then 0 else 1))"

text \<open>
  The invariant of play with arbitrary indices: no slot after the ninth holds
  \<^verbatim>\<open>null\<close> (such a slot is a hole or a mark).
\<close>

definition extras_ok :: "jsarray \<Rightarrow> bool" where
  "extras_ok sq = list_all (\<lambda>v. v \<noteq> Null) (drop 9 (elems sq))"

section \<open>Concrete boards, states and event sequences\<close>

text \<open>A board with two winning lines (top row and left column), and a drawn board.\<close>

definition two_lines :: jsarray where
  "two_lines =
     \<lparr>elems = [Mark MarkX, Mark MarkX, Mark MarkX,
               Mark MarkX, Mark MarkO, Mark MarkO,
               Mark MarkX, Mark MarkO, Mark MarkO],
      props = Map.empty\<rparr>"

definition draw_board :: jsarray where
  "draw_board =
     \<lparr>elems = [Mark MarkX, Mark MarkO, Mark MarkX,
               Mark MarkX, Mark MarkO, Mark MarkO,
               Mark MarkO, Mark MarkX, Mark MarkX],
      props = Map.empty\<rparr>"

text \<open>
  The game X 0, O 3, X 1, O 4, one move before X completes the top row, and after,
  with a given number of further invocations of the updater on every click.
\<close>

definition before_win :: "nat \<Rightarrow> state" where
  "before_win reruns = run initial (map (\<lambda>i. Click i reruns) [0, 3, 1, 4])"

definition after_win :: "nat \<Rightarrow> state" where
  "after_win reruns = handleSquareClickWithScore reruns (before_win reruns) 2"

definition sample_events :: "event list" where
  "sample_events = [Click 4 0, Click 4 1, Click 0 1, Restart True, Click 8 0]"

section \<open>Reading and writing array slots\<close>

lemma read_write_same: "read_at (write_at a i v) i = v"
  by (simp add: read_at_def write_at_def nth_append)

lemma read_write_other: "j \<noteq> i \<Longrightarrow> read_at (write_at a i v) j = read_at a j"
  by (auto simp: read_at_def write_at_def nth_append is_index_def nth_Cons')

lemma read_spread: "is_index j \<Longrightarrow> read_at (spread a) j = read_at a j"
  by (simp add: read_at_def spread_def)

lemma in_range_is_index: "0 \<le> j \<and> j \<le> 8 \<Longrightarrow> is_index j"
  by (simp add: is_index_def)

lemma elems_write:
  "elems (write_at (spread a) i v) =
     (if is_index i
      then (if nat i < length (elems a) then (elems a)[nat i := v]
            else elems a @ replicate (nat i - length (elems a)) Undefined @ [v])
      else elems a)"
  by (simp add: write_at_def spread_def)

section \<open>The winner evaluation returns the first winning line\<close>

lemma truthy_Mark: "truthy v = (\<exists>m. v = Mark m)"
  by (cases v) simp_all

lemma wins_same_mark:
  "(truthy x \<and> x = y \<and> x = z) = (case x of Mark m \<Rightarrow> y = Mark m \<and> z = Mark m | _ \<Rightarrow> False)"
  by (cases x) auto

lemma loop_find:
  "calculateWinner_loop sq ls =
     (case find (same_mark sq) ls of
        None \<Rightarrow> \<lparr>winner = Null, line = None\<rparr>
      | Some l \<Rightarrow> \<lparr>winner = read_at sq (fst l), line = Some l\<rparr>)"
proof (induction ls)
  case Nil
  show ?case by simp
next
  case (Cons l ls)
  obtain a b c where l: "l = (a, b, c)" by (cases l)
  show ?case
    using Cons.IH by (simp add: l same_mark_def wins_same_mark)
qed

lemma WIN_LINES_length: "length WIN_LINES = 8"
  by (simp add: WIN_LINES_def)

text \<open>
  C1. \<^verbatim>\<open>calculateWinner\<close> goes through the eight triples in the order rows,
  columns, diagonals. If no triple holds one mark three times it returns no winner
  and no line; otherwise it returns the first triple in that order that does (so also
  on a board with several winning lines), with the mark of its cells as the winner.
\<close>

theorem calculateWinner_first:
  "WIN_LINES =
     [(0, 1, 2), (3, 4, 5), (6, 7, 8), (0, 3, 6), (1, 4, 7), (2, 5, 8), (0, 4, 8), (2, 4, 6)]
   \<and> ((\<forall>k<8. \<not> same_mark sq (WIN_LINES ! k)) \<longrightarrow>
         calculateWinner sq = \<lparr>winner = Null, line = None\<rparr>)
   \<and> (\<forall>k<8. same_mark sq (WIN_LINES ! k) \<and> (\<forall>j<k. \<not> same_mark sq (WIN_LINES ! j)) \<longrightarrow>
         calculateWinner sq =
           \<lparr>winner = read_at sq (fst (WIN_LINES ! k)), line = Some (WIN_LINES ! k)\<rparr>)"
proof (intro conjI allI impI)
  show "WIN_LINES =
     [(0, 1, 2), (3, 4, 5), (6, 7, 8), (0, 3, 6), (1, 4, 7), (2, 5, 8), (0, 4, 8), (2, 4, 6)]"
    by (simp add: WIN_LINES_def)
next
  assume none: "\<forall>k<8. \<not> same_mark sq (WIN_LINES ! k)"
  have "find (same_mark sq) WIN_LINES = None"
    unfolding find_None_iff using none WIN_LINES_length by (metis in_set_conv_nth)
  then show "calculateWinner sq = \<lparr>winner = Null, line = None\<rparr>"
    by (simp add: calculateWinner_def loop_find)
next
  fix k :: nat
  assume k: "k < 8"
    and first: "same_mark sq (WIN_LINES ! k) \<and> (\<forall>j<k. \<not> same_mark sq (WIN_LINES ! j))"
  have "find (same_mark sq) WIN_LINES = Some (WIN_LINES ! k)"
    unfolding find_Some_iff using k first WIN_LINES_length by auto
  then show "calculateWinner sq =
      \<lparr>winner = read_at sq (fst (WIN_LINES ! k)), line = Some (WIN_LINES ! k)\<rparr>"
    by (simp add: calculateWinner_def loop_find)
qed

theorem calculateWinner_first_witness:
  "same_mark two_lines (WIN_LINES ! 0) \<and> same_mark two_lines (WIN_LINES ! 3)
   \<and> calculateWinner two_lines = \<lparr>winner = Mark MarkX, line = Some (0, 1, 2)\<rparr>
   \<and> calculateWinner empty_board = \<lparr>winner = Null, line = None\<rparr>"
proof -
  have row: "same_mark two_lines (WIN_LINES ! 0)" by code_simp
  have col: "same_mark two_lines (WIN_LINES ! 3)" by code_simp
  have "calculateWinner two_lines =
      \<lparr>winner = read_at two_lines (fst (WIN_LINES ! 0)), line = Some (WIN_LINES ! 0)\<rparr>"
    using calculateWinner_first [of two_lines] row by simp
  moreover have "read_at two_lines (fst (WIN_LINES ! 0)) = Mark MarkX" by code_simp
  moreover have "WIN_LINES ! 0 = (0, 1, 2)" by (simp add: WIN_LINES_def)
  moreover have "calculateWinner empty_board = \<lparr>winner = Null, line = None\<rparr>"
  proof -
    have "\<not> same_mark empty_board l" for l
      by (cases l) (simp add: same_mark_def read_at_def empty_board_def)
    then show ?thesis using calculateWinner_first [of empty_board] by simp
  qed
  ultimately show ?thesis using row col by simp
qed

section \<open>Winner and winning line agree\<close>

lemma loop_line_None:
  "line (calculateWinner_loop sq ls) = None \<Longrightarrow> winner (calculateWinner_loop sq ls) = Null"
  by (induction sq ls rule: calculateWinner_loop.induct) (auto split: if_splits)

lemma loop_line_Some:
  "line (calculateWinner_loop sq ls) = Some (a, b, c) \<Longrightarrow>
     (a, b, c) \<in> set ls \<and> truthy (read_at sq a)
     \<and> read_at sq b = read_at sq a \<and> read_at sq c = read_at sq a
     \<and> winner (calculateWinner_loop sq ls) = read_at sq a"
  by (induction sq ls rule: calculateWinner_loop.induct) (auto split: if_splits)

lemma winner_Null_or_Mark:
  "winner (calculateWinner sq) = Null \<or> (\<exists>m. winner (calculateWinner sq) = Mark m)"
proof (cases "line (calculateWinner sq)")
  case None
  then show ?thesis
    using loop_line_None [of sq WIN_LINES] by (simp add: calculateWinner_def)
next
  case (Some l)
  obtain a b c where "l = (a, b, c)" by (cases l)
  with Some show ?thesis
    using loop_line_Some [of sq WIN_LINES a b c] by (simp add: calculateWinner_def truthy_Mark)
qed

lemma truthy_winner:
  "truthy (winner (calculateWinner sq)) = (winner (calculateWinner sq) \<noteq> Null)"
  using winner_Null_or_Mark [of sq] by auto

text \<open>
  C10. The result of \<^verbatim>\<open>calculateWinner\<close> has a winner exactly when it has a line;
  the winner is then a mark, the line is one of the eight triples, and its three cells
  hold that mark.
\<close>

theorem calculateWinner_consistent:
  "(winner (calculateWinner sq) \<noteq> Null \<longleftrightarrow> line (calculateWinner sq) \<noteq> None)
   \<and> winner (calculateWinner sq) \<noteq> Undefined
   \<and> (\<forall>a b c. line (calculateWinner sq) = Some (a, b, c) \<longrightarrow>
         (a, b, c) \<in> set WIN_LINES
         \<and> (\<exists>m. winner (calculateWinner sq) = Mark m
               \<and> read_at sq a = Mark m \<and> read_at sq b = Mark m \<and> read_at sq c = Mark m))"
proof (intro conjI allI impI)
  show "(winner (calculateWinner sq) \<noteq> Null) = (line (calculateWinner sq) \<noteq> None)"
  proof (cases "line (calculateWinner sq)")
    case None
    then show ?thesis
      using loop_line_None [of sq WIN_LINES] by (simp add: calculateWinner_def)
  next
    case (Some l)
    obtain a b c where "l = (a, b, c)" by (cases l)
    with Some show ?thesis
      using loop_line_Some [of sq WIN_LINES a b c] by (auto simp: calculateWinner_def truthy_Mark)
  qed
next
  show "winner (calculateWinner sq) \<noteq> Undefined"
    using winner_Null_or_Mark [of sq] by auto
next
  fix a b c
  assume "line (calculateWinner sq) = Some (a, b, c)"
  then have *: "(a, b, c) \<in> set WIN_LINES \<and> truthy (read_at sq a)
     \<and> read_at sq b = read_at sq a \<and> read_at sq c = read_at sq a
     \<and> winner (calculateWinner sq) = read_at sq a"
    using loop_line_Some [of sq WIN_LINES a b c] by (simp add: calculateWinner_def)
  then show "(a, b, c) \<in> set WIN_LINES" by simp
  from * obtain m where "read_at sq a = Mark m" using truthy_Mark by blast
  with * show "\<exists>m. winner (calculateWinner sq) = Mark m
               \<and> read_at sq a = Mark m \<and> read_at sq b = Mark m \<and> read_at sq c = Mark m"
    by simp
qed

theorem calculateWinner_consistent_witness:
  "line (calculateWinner two_lines) = Some (0, 1, 2)
   \<and> (0, 1, 2) \<in> set WIN_LINES
   \<and> winner (calculateWinner two_lines) = Mark MarkX
   \<and> read_at two_lines 0 = Mark MarkX \<and> read_at two_lines 1 = Mark MarkX
   \<and> read_at two_lines 2 = Mark MarkX"
proof -
  have l: "line (calculateWinner two_lines) = Some (0, 1, 2)" by code_simp
  have x: "read_at two_lines 0 = Mark MarkX" by code_simp
  from calculateWinner_consistent [of two_lines] l
  have "(0, 1, 2) \<in> set WIN_LINES
      \<and> (\<exists>m. winner (calculateWinner two_lines) = Mark m
            \<and> read_at two_lines 0 = Mark m \<and> read_at two_lines 1 = Mark m
            \<and> read_at two_lines 2 = Mark m)"
    by blast
  with l x show ?thesis by auto
qed

section \<open>Draw and game over\<close>

lemma full_nine:
  assumes "length (elems sq) = 9"
  shows "isBoardFull sq \<longleftrightarrow> (\<forall>i. 0 \<le> i \<and> i \<le> 8 \<longrightarrow> read_at sq i \<noteq> Null)"
proof
  assume full: "isBoardFull sq"
  show "\<forall>i. 0 \<le> i \<and> i \<le> 8 \<longrightarrow> read_at sq i \<noteq> Null"
  proof (intro allI impI)
    fix i :: int
    assume i: "0 \<le> i \<and> i \<le> 8"
    then have "nat i < length (elems sq)" using assms by linarith
    then have "elems sq ! nat i \<noteq> Null"
      using full by (simp add: isBoardFull_def list_all_length)
    then show "read_at sq i \<noteq> Null"
      using i assms by (simp add: read_at_def is_index_def)
  qed
next
  assume cells: "\<forall>i. 0 \<le> i \<and> i \<le> 8 \<longrightarrow> read_at sq i \<noteq> Null"
  have "elems sq ! n \<noteq> Null" if n: "n < length (elems sq)" for n
  proof -
    have "0 \<le> int n \<and> int n \<le> 8" using n assms by simp
    then have "read_at sq (int n) \<noteq> Null" using cells by blast
    then show ?thesis using n assms by (simp add: read_at_def is_index_def)
  qed
  then show "isBoardFull sq" by (simp add: isBoardFull_def list_all_length)
qed

text \<open>
  C2. On a board of nine cells, \<^verbatim>\<open>draw\<close> holds exactly when there is no winner and
  none of the cells 0 to 8 is empty, and \<^verbatim>\<open>gameOver\<close> holds exactly when there is a
  winner or a draw.
\<close>

theorem status_derivation:
  assumes "length (elems sq) = 9"
  shows "(draw sq \<longleftrightarrow>
            winner (calculateWinner sq) = Null
            \<and> (\<forall>i. 0 \<le> i \<and> i \<le> 8 \<longrightarrow> read_at sq i \<noteq> Null))
         \<and> (gameOver sq \<longleftrightarrow> winner (calculateWinner sq) \<noteq> Null \<or> draw sq)"
  using full_nine [OF assms] by (simp add: draw_def gameOver_def truthy_winner)

theorem status_derivation_witness:
  "length (elems draw_board) = 9
   \<and> winner (calculateWinner draw_board) = Null
   \<and> read_at draw_board 0 \<noteq> Null \<and> read_at draw_board 8 \<noteq> Null
   \<and> draw draw_board \<and> gameOver draw_board"
proof -
  have len: "length (elems draw_board) = 9" by (simp add: draw_board_def)
  have w: "winner (calculateWinner draw_board) = Null" by code_simp
  have full: "isBoardFull draw_board" by code_simp
  have cells: "\<forall>i. 0 \<le> i \<and> i \<le> 8 \<longrightarrow> read_at draw_board i \<noteq> Null"
    using full full_nine [OF len] by simp
  have "draw draw_board \<and> gameOver draw_board"
    using status_derivation [OF len] w cells by blast
  moreover have "read_at draw_board 0 \<noteq> Null \<and> read_at draw_board 8 \<noteq> Null"
    using cells by simp
  ultimately show ?thesis using len w by simp
qed

section \<open>Clicks: rejected and accepted\<close>

lemma click_rejected:
  "gameOver (squares s) \<or> truthy (read_at (squares s) i) \<Longrightarrow> handleSquareClickWithScore k s i = s"
  by (auto simp: handleSquareClickWithScore_def)

lemma fold_enqueued:
  "fold apply_score_update (concat (replicate n [AddWin MarkX])) sc = sc\<lparr>scoreX := scoreX sc + n\<rparr>"
  "fold apply_score_update (concat (replicate n [AddWin MarkO])) sc = sc\<lparr>scoreO := scoreO sc + n\<rparr>"
  "fold apply_score_update (concat (replicate n [AddDraw])) sc = sc\<lparr>draws := draws sc + n\<rparr>"
  "fold apply_score_update (concat (replicate n [])) sc = sc"
  by (induction n arbitrary: sc) (simp_all add: add_draw_def)

lemma click_accepted:
  assumes "\<not> gameOver (squares s)" and "\<not> truthy (read_at (squares s) i)"
  shows "squares (handleSquareClickWithScore k s i)
           = write_at (spread (squares s)) i (Mark (currentPlayer s))"
    and "xIsNext (handleSquareClickWithScore k s i) = (\<not> xIsNext s)"
    and "scores (handleSquareClickWithScore k s i)
           = fold apply_score_update
               (concat (replicate (Suc k)
                  (case winner (calculateWinner (squares (handleSquareClickWithScore k s i))) of
                     Mark w \<Rightarrow> [AddWin w]
                   | _ \<Rightarrow> if draw (squares (handleSquareClickWithScore k s i))
                          then [AddDraw] else [])))
               (scores s)"
  using assms
  by (simp_all add: handleSquareClickWithScore_def squares_updater_def Let_def
        currentPlayer_def draw_def)

lemma clicks_after_gameOver:
  "gameOver (squares s) \<Longrightarrow> list_all is_click es \<Longrightarrow> run s es = s"
proof (induction es)
  case Nil
  show ?case by (simp add: run_def)
next
  case (Cons e es)
  then obtain i k where "e = Click i k" by (cases e) (simp_all add: is_click_def)
  with Cons show ?case by (simp add: run_def click_rejected)
qed

lemma before_win_open:
  "\<not> gameOver (squares (before_win 0)) \<and> read_at (squares (before_win 0)) 2 = Null
   \<and> read_at (squares (before_win 0)) 0 = Mark MarkX
   \<and> xIsNext (before_win 0)
   \<and> scores (before_win 0) = \<lparr>scoreX = 0, scoreO = 0, draws = 0\<rparr>"
  by code_simp

lemma after_win_over:
  "gameOver (squares (after_win 0))
   \<and> winner (calculateWinner (squares (after_win 0))) = Mark MarkX"
  by code_simp

text \<open>
  C4. A click when the game is over, and a click on one of the squares 0 to 8 that
  holds a mark, return the state as it is: board, turn and scores are unchanged. The
  handler has no failing branch, and no updater is passed to React on these paths.
\<close>

theorem rejected_click_noop:
  "(gameOver (squares s) \<longrightarrow> handleSquareClickWithScore k s i = s)
   \<and> (0 \<le> i \<and> i \<le> 8 \<and> read_at (squares s) i = Mark m \<longrightarrow>
        handleSquareClickWithScore k s i = s)"
  by (simp add: click_rejected)

theorem rejected_click_noop_witness:
  "gameOver (squares (after_win 0))
   \<and> handleSquareClickWithScore 0 (after_win 0) 5 = after_win 0
   \<and> handleSquareClickWithScore 1 (after_win 0) 5 = after_win 0
   \<and> read_at (squares (before_win 0)) 0 = Mark MarkX
   \<and> handleSquareClickWithScore 0 (before_win 0) 0 = before_win 0"
proof -
  have over: "gameOver (squares (after_win 0))" using after_win_over by simp
  have held: "read_at (squares (before_win 0)) 0 = Mark MarkX" using before_win_open by simp
  have "handleSquareClickWithScore 0 (after_win 0) 5 = after_win 0"
    using rejected_click_noop [of "after_win 0" 0 5] over by simp
  moreover have "handleSquareClickWithScore 1 (after_win 0) 5 = after_win 0"
    using rejected_click_noop [of "after_win 0" 1 5] over by simp
  moreover have "handleSquareClickWithScore 0 (before_win 0) 0 = before_win 0"
    using rejected_click_noop [of "before_win 0" 0 0 MarkX] held by simp
  ultimately show ?thesis using over held by simp
qed

text \<open>
  C6 as stated fails for a call that the specification counts as rejected: a click at
  index 9 on the initial state marks none of the squares 0 to 8, and yet the turn
  passes from X to O.
\<close>

theorem out_of_range_click_flips_turn:
  "\<not> (9 :: int) \<le> 8
   \<and> currentPlayer initial = MarkX
   \<and> take 9 (elems (squares (handleSquareClickWithScore 0 initial 9))) = elems (squares initial)
   \<and> currentPlayer (handleSquareClickWithScore 0 initial 9) = MarkO"
  by code_simp

text \<open>
  C6, as the code has it. The handler rejects a click exactly when the game is over or
  the slot at the index holds a mark, whatever the index. A click it does not reject
  places the current player's mark at the index and flips the turn, whether or not the
  move ends the game; a click it rejects leaves the turn as it is.
\<close>

theorem turn_alternates:
  "(\<not> gameOver (squares s) \<and> \<not> truthy (read_at (squares s) i) \<longrightarrow>
      read_at (squares (handleSquareClickWithScore k s i)) i = Mark (currentPlayer s)
      \<and> xIsNext (handleSquareClickWithScore k s i) = (\<not> xIsNext s)
      \<and> currentPlayer (handleSquareClickWithScore k s i) \<noteq> currentPlayer s)
   \<and> (gameOver (squares s) \<or> truthy (read_at (squares s) i) \<longrightarrow>
      xIsNext (handleSquareClickWithScore k s i) = xIsNext s
      \<and> currentPlayer (handleSquareClickWithScore k s i) = currentPlayer s)"
proof (intro conjI impI)
  assume acc: "\<not> gameOver (squares s) \<and> \<not> truthy (read_at (squares s) i)"
  then show "read_at (squares (handleSquareClickWithScore k s i)) i = Mark (currentPlayer s)"
    by (simp add: click_accepted(1) read_write_same)
  from acc show flip: "xIsNext (handleSquareClickWithScore k s i) = (\<not> xIsNext s)"
    by (simp add: click_accepted(2))
  then show "currentPlayer (handleSquareClickWithScore k s i) \<noteq> currentPlayer s"
    by (simp add: currentPlayer_def)
next
  assume "gameOver (squares s) \<or> truthy (read_at (squares s) i)"
  then have same: "handleSquareClickWithScore k s i = s" by (rule click_rejected)
  show "xIsNext (handleSquareClickWithScore k s i) = xIsNext s" by (simp add: same)
  show "currentPlayer (handleSquareClickWithScore k s i) = currentPlayer s" by (simp add: same)
qed

theorem turn_alternates_witness:
  "\<not> gameOver (squares (before_win 0)) \<and> \<not> truthy (read_at (squares (before_win 0)) 2)
   \<and> currentPlayer (before_win 0) = MarkX
   \<and> read_at (squares (handleSquareClickWithScore 1 (before_win 0) 2)) 2 = Mark MarkX
   \<and> currentPlayer (handleSquareClickWithScore 1 (before_win 0) 2) \<noteq> MarkX
   \<and> gameOver (squares (after_win 0))
   \<and> currentPlayer (handleSquareClickWithScore 1 (after_win 0) 5) = currentPlayer (after_win 0)
   \<and> \<not> gameOver (squares initial) \<and> \<not> truthy (read_at (squares initial) 9)
   \<and> currentPlayer (handleSquareClickWithScore 0 initial 9) \<noteq> currentPlayer initial"
proof -
  have out: "\<not> gameOver (squares initial) \<and> \<not> truthy (read_at (squares initial) 9)"
    by code_simp
  have flip: "currentPlayer (handleSquareClickWithScore 0 initial 9) \<noteq> currentPlayer initial"
    using turn_alternates [of initial 9 0] out by simp
  have acc: "\<not> gameOver (squares (before_win 0)) \<and> \<not> truthy (read_at (squares (before_win 0)) 2)"
    using before_win_open by simp
  have cur: "currentPlayer (before_win 0) = MarkX"
    using before_win_open by (simp add: currentPlayer_def)
  have over: "gameOver (squares (after_win 0))" using after_win_over by simp
  have "read_at (squares (handleSquareClickWithScore 1 (before_win 0) 2)) 2 = Mark MarkX
      \<and> currentPlayer (handleSquareClickWithScore 1 (before_win 0) 2) \<noteq> MarkX"
    using turn_alternates [of "before_win 0" 2 1] acc cur by simp
  moreover have "currentPlayer (handleSquareClickWithScore 1 (after_win 0) 5)
      = currentPlayer (after_win 0)"
    using turn_alternates [of "after_win 0" 5 1] over by simp
  ultimately show ?thesis using acc cur over out flip by simp
qed

text \<open>
  What a click on an empty square does while the game is not over, for any number of
  invocations of the updater: it writes the current player's mark there and leaves the
  other squares; the winner's counter (or, on a draw, the draws) grows by the number of
  times the updater was invoked, \<open>Suc k\<close>, and no other counter changes; and when
  the move decided the game, any further clicks return the same state.
\<close>

lemma accepted_click_effect:
  assumes "\<not> gameOver (squares s)" and "read_at (squares s) i = Null"
  shows "let s' = handleSquareClickWithScore k s i; r = calculateWinner (squares s') in
     read_at (squares s') i = Mark (currentPlayer s)
     \<and> (\<forall>j. is_index j \<and> j \<noteq> i \<longrightarrow> read_at (squares s') j = read_at (squares s) j)
     \<and> (winner r = Mark MarkX \<longrightarrow>
           scores s' = (scores s)\<lparr>scoreX := scoreX (scores s) + Suc k\<rparr>)
     \<and> (winner r = Mark MarkO \<longrightarrow>
           scores s' = (scores s)\<lparr>scoreO := scoreO (scores s) + Suc k\<rparr>)
     \<and> (winner r = Null \<and> draw (squares s') \<longrightarrow>
           scores s' = (scores s)\<lparr>draws := draws (scores s) + Suc k\<rparr>)
     \<and> (winner r = Null \<and> \<not> draw (squares s') \<longrightarrow> scores s' = scores s)
     \<and> winner r \<noteq> Undefined
     \<and> (winner r \<noteq> Null \<or> draw (squares s') \<longrightarrow>
           (\<forall>es. list_all is_click es \<longrightarrow> run s' es = s'))"
proof -
  define s' where "s' = handleSquareClickWithScore k s i"
  define r where "r = calculateWinner (squares s')"
  have nt: "\<not> truthy (read_at (squares s) i)" using assms(2) by simp
  have sq: "squares s' = write_at (spread (squares s)) i (Mark (currentPlayer s))"
    unfolding s'_def using assms(1) nt by (rule click_accepted(1))
  have sc: "scores s' = fold apply_score_update
               (concat (replicate (Suc k)
                  (case winner r of
                     Mark w \<Rightarrow> [AddWin w]
                   | _ \<Rightarrow> if draw (squares s') then [AddDraw] else [])))
               (scores s)"
    unfolding s'_def r_def using assms(1) nt by (rule click_accepted(3))
  have 1: "read_at (squares s') i = Mark (currentPlayer s)"
    by (simp add: sq read_write_same)
  have 2: "\<forall>j. is_index j \<and> j \<noteq> i \<longrightarrow> read_at (squares s') j = read_at (squares s) j"
    by (simp add: sq read_write_other read_spread)
  have 3: "winner r = Mark MarkX \<longrightarrow>
      scores s' = (scores s)\<lparr>scoreX := scoreX (scores s) + Suc k\<rparr>"
    using fold_enqueued(1) [of "Suc k" "scores s"] by (simp add: sc)
  have 4: "winner r = Mark MarkO \<longrightarrow>
      scores s' = (scores s)\<lparr>scoreO := scoreO (scores s) + Suc k\<rparr>"
    using fold_enqueued(2) [of "Suc k" "scores s"] by (simp add: sc)
  have 5: "winner r = Null \<and> draw (squares s') \<longrightarrow>
      scores s' = (scores s)\<lparr>draws := draws (scores s) + Suc k\<rparr>"
    using fold_enqueued(3) [of "Suc k" "scores s"] by (simp add: sc)
  have 6: "winner r = Null \<and> \<not> draw (squares s') \<longrightarrow> scores s' = scores s"
    using fold_enqueued(4) [of "Suc k" "scores s"] by (simp add: sc)
  have 7: "winner r \<noteq> Undefined"
    unfolding r_def using winner_Null_or_Mark [of "squares s'"] by auto
  have 8: "winner r \<noteq> Null \<or> draw (squares s') \<longrightarrow>
      (\<forall>es. list_all is_click es \<longrightarrow> run s' es = s')"
  proof (intro impI allI)
    fix es
    assume "winner r \<noteq> Null \<or> draw (squares s')" and clicks: "list_all is_click es"
    then have "gameOver (squares s')"
      by (simp add: gameOver_def truthy_winner r_def)
    then show "run s' es = s'" using clicks by (rule clicks_after_gameOver)
  qed
  from 1 2 3 4 5 6 7 8 show ?thesis
    unfolding s'_def [symmetric] r_def [symmetric] Let_def by blast
qed

text \<open>
  C3. The claim, like the comment above the handler (\<^verbatim>\<open>update scores once\<close>), has
  the counter of the decided game incremented by exactly 1. The call of
  \<^verbatim>\<open>setScores\<close> sits inside the \<^verbatim>\<open>setSquares\<close> updater, so it is repeated with
  every invocation of that updater: when React invokes it twice, the winning click at
  square 2 after X 0, O 3, X 1, O 4 takes the score of X from 0 to 2.
\<close>

theorem winning_click_counts_twice:
  "\<not> gameOver (squares (before_win 1))
   \<and> read_at (squares (before_win 1)) 2 = Null
   \<and> scores (before_win 1) = \<lparr>scoreX = 0, scoreO = 0, draws = 0\<rparr>
   \<and> winner (calculateWinner (squares (handleSquareClickWithScore 1 (before_win 1) 2)))
       = Mark MarkX
   \<and> scores (handleSquareClickWithScore 1 (before_win 1) 2)
       = \<lparr>scoreX = 2, scoreO = 0, draws = 0\<rparr>
   \<and> scores (handleSquareClickWithScore 0 (before_win 0) 2)
       = \<lparr>scoreX = 1, scoreO = 0, draws = 0\<rparr>"
  by code_simp

section \<open>Restart\<close>

text \<open>
  C7. \<^verbatim>\<open>restartGame\<close> is defined on every state and flag. It sets the board to nine
  \<^verbatim>\<open>null\<close> cells and the turn to X; the scores become 0, 0, 0 when
  \<^verbatim>\<open>keepScores\<close> is false and are the old ones when it is true.
\<close>

theorem restart_effect:
  "squares (restartGame keepScores s) = empty_board
   \<and> elems (squares (restartGame keepScores s)) = replicate 9 Null
   \<and> (\<forall>i. 0 \<le> i \<and> i \<le> 8 \<longrightarrow> read_at (squares (restartGame keepScores s)) i = Null)
   \<and> xIsNext (restartGame keepScores s)
   \<and> currentPlayer (restartGame keepScores s) = MarkX
   \<and> (\<not> keepScores \<longrightarrow>
        scores (restartGame keepScores s) = \<lparr>scoreX = 0, scoreO = 0, draws = 0\<rparr>)
   \<and> (keepScores \<longrightarrow> scores (restartGame keepScores s) = scores s)"
proof -
  have "read_at empty_board i = Null" if "0 \<le> i \<and> i \<le> 8" for i
  proof -
    have "nat i < 9" using that by linarith
    then show ?thesis using that by (simp add: read_at_def empty_board_def is_index_def)
  qed
  then show ?thesis
    by (simp add: restartGame_def currentPlayer_def zero_scores_def empty_board_def)
qed

theorem restart_effect_witness:
  "squares (restartGame True (after_win 0)) = empty_board
   \<and> read_at (squares (restartGame True (after_win 0))) 2 = Null
   \<and> currentPlayer (restartGame True (after_win 0)) = MarkX
   \<and> scores (restartGame True (after_win 0)) = scores (after_win 0)
   \<and> scores (restartGame False (after_win 0)) = \<lparr>scoreX = 0, scoreO = 0, draws = 0\<rparr>"
proof -
  note keep = restart_effect [of True "after_win 0"]
  then have "\<forall>i. 0 \<le> i \<and> i \<le> 8 \<longrightarrow> read_at (squares (restartGame True (after_win 0))) i = Null"
    by blast
  then have "0 \<le> (2 :: int) \<and> (2 :: int) \<le> 8
      \<longrightarrow> read_at (squares (restartGame True (after_win 0))) 2 = Null"
    by (rule spec)
  then have "read_at (squares (restartGame True (after_win 0))) 2 = Null" by simp
  then show ?thesis using keep restart_effect [of False "after_win 0"] by simp
qed

section \<open>A played game\<close>

text \<open>
  C8. From the initial state, the clicks at squares 0, 3, 1, 4, 2 end in a state whose
  winner is X with the top row as winning line. The claim has the scores X 1, O 0,
  draws 0: that is so when React invokes the updater once on every click; when it
  invokes it twice, the score of X is 2.
\<close>

theorem top_row_scenario:
  "winner (calculateWinner (squares (run initial (strict_clicks [0, 3, 1, 4, 2])))) = Mark MarkX
   \<and> line (calculateWinner (squares (run initial (strict_clicks [0, 3, 1, 4, 2]))))
       = Some (0, 1, 2)
   \<and> scores (run initial (strict_clicks [0, 3, 1, 4, 2]))
       = \<lparr>scoreX = 2, scoreO = 0, draws = 0\<rparr>
   \<and> winner (calculateWinner (squares (run initial (plain_clicks [0, 3, 1, 4, 2])))) = Mark MarkX
   \<and> line (calculateWinner (squares (run initial (plain_clicks [0, 3, 1, 4, 2]))))
       = Some (0, 1, 2)
   \<and> scores (run initial (plain_clicks [0, 3, 1, 4, 2]))
       = \<lparr>scoreX = 1, scoreO = 0, draws = 0\<rparr>"
  by code_simp

section \<open>Reachable states on the nine squares\<close>

lemma count_update_new:
  "n < length xs \<Longrightarrow> xs ! n \<noteq> v \<Longrightarrow>
     length (filter (\<lambda>x. x = v) (xs[n := v])) = Suc (length (filter (\<lambda>x. x = v) xs))"
proof (induction xs arbitrary: n)
  case Nil
  then show ?case by simp
next
  case (Cons x xs)
  then show ?case by (cases n) auto
qed

lemma count_update_other:
  "w \<noteq> v \<Longrightarrow> xs ! n \<noteq> w \<Longrightarrow> n < length xs \<Longrightarrow>
     length (filter (\<lambda>x. x = w) (xs[n := v])) = length (filter (\<lambda>x. x = w) xs)"
proof (induction xs arbitrary: n)
  case Nil
  then show ?case by simp
next
  case (Cons x xs)
  then show ?case by (cases n) auto
qed

lemma turn_inv_initial: "turn_inv initial"
  by (simp add: turn_inv_def initial_def is_board_def empty_board_def count_mark_def list_all_iff)

lemma turn_inv_restart: "turn_inv (restartGame keepScores s)"
  by (simp add: turn_inv_def restartGame_def is_board_def empty_board_def count_mark_def list_all_iff)

lemma turn_inv_click:
  assumes inv: "turn_inv s" and i: "0 \<le> i \<and> i \<le> 8"
  shows "turn_inv (handleSquareClickWithScore k s i)"
proof (cases "gameOver (squares s) \<or> truthy (read_at (squares s) i)")
  case True
  then show ?thesis using inv by (simp add: click_rejected)
next
  case False
  let ?xs = "elems (squares s)"
  let ?m = "currentPlayer s"
  have len: "length ?xs = 9" and nu: "list_all (\<lambda>v. v \<noteq> Undefined) ?xs"
    using inv by (simp_all add: turn_inv_def is_board_def)
  have n: "nat i < length ?xs" using i len by linarith
  have idx: "is_index i" using i by (simp add: is_index_def)
  have rd: "read_at (squares s) i = ?xs ! nat i" using n idx by (simp add: read_at_def)
  have "?xs ! nat i \<noteq> Undefined" using nu n by (simp add: list_all_length)
  moreover have "\<not> truthy (?xs ! nat i)" using False rd by simp
  ultimately have old: "?xs ! nat i = Null" by (cases "?xs ! nat i") simp_all
  have el: "elems (squares (handleSquareClickWithScore k s i)) = ?xs[nat i := Mark ?m]"
    using False n idx by (simp add: click_accepted(1) write_at_def spread_def)
  have turn: "xIsNext (handleSquareClickWithScore k s i) = (\<not> xIsNext s)"
    using False by (simp add: click_accepted(2))
  have "set (?xs[nat i := Mark ?m]) \<subseteq> insert (Mark ?m) (set ?xs)"
    by (rule set_update_subset_insert)
  then have board: "is_board (squares (handleSquareClickWithScore k s i))"
    using len nu by (auto simp: is_board_def el list_all_iff)
  have cnt: "count_mark MarkX (squares s)
      = count_mark MarkO (squares s) + (if xIsNext s then 0 else 1)"
    using inv by (simp add: turn_inv_def)
  show ?thesis
  proof (cases "xIsNext s")
    case True
    then have m: "?m = MarkX" by (simp add: currentPlayer_def)
    have "count_mark MarkX (squares (handleSquareClickWithScore k s i))
        = Suc (count_mark MarkX (squares s))"
      by (simp add: count_mark_def el m count_update_new n old)
    moreover have "count_mark MarkO (squares (handleSquareClickWithScore k s i))
        = count_mark MarkO (squares s)"
      by (simp add: count_mark_def el m count_update_other n old)
    ultimately show ?thesis using board turn cnt True by (simp add: turn_inv_def)
  next
    case False
    then have m: "?m = MarkO" by (simp add: currentPlayer_def)
    have "count_mark MarkO (squares (handleSquareClickWithScore k s i))
        = Suc (count_mark MarkO (squares s))"
      by (simp add: count_mark_def el m count_update_new n old)
    moreover have "count_mark MarkX (squares (handleSquareClickWithScore k s i))
        = count_mark MarkX (squares s)"
      by (simp add: count_mark_def el m count_update_other n old)
    ultimately show ?thesis using board turn cnt False by (simp add: turn_inv_def)
  qed
qed

lemma turn_inv_run:
  "turn_inv s \<Longrightarrow> list_all in_range_event es \<Longrightarrow> turn_inv (run s es)"
proof (induction es arbitrary: s)
  case Nil
  then show ?case by (simp add: run_def)
next
  case (Cons e es)
  have "turn_inv (step s e)"
  proof (cases e)
    case (Click i k)
    then show ?thesis using Cons.prems by (simp add: in_range_event_def turn_inv_click)
  next
    case (Restart k)
    then show ?thesis by (simp add: turn_inv_restart)
  qed
  moreover have "list_all in_range_event es" using Cons.prems by simp
  ultimately have "turn_inv (run (step s e) es)" by (rule Cons.IH)
  then show ?case by (simp add: run_def)
qed

text \<open>
  C9. After any sequence of clicks on the squares 0 to 8 and restarts from the initial
  state, the board has nine cells, each \<^verbatim>\<open>null\<close>, X or O; the number of X minus the
  number of O is 0 or 1; and X is next exactly when the two numbers are equal.
\<close>

theorem reachable_board_and_turn:
  assumes "list_all in_range_event es"
  shows "let s = run initial es in
           length (elems (squares s)) = 9
           \<and> (\<forall>i. 0 \<le> i \<and> i \<le> 8 \<longrightarrow>
                 read_at (squares s) i = Null \<or> read_at (squares s) i = Mark MarkX
                 \<or> read_at (squares s) i = Mark MarkO)
           \<and> (int (count_mark MarkX (squares s)) - int (count_mark MarkO (squares s)) = 0
              \<or> int (count_mark MarkX (squares s)) - int (count_mark MarkO (squares s)) = 1)
           \<and> (currentPlayer s = MarkX
                \<longleftrightarrow> count_mark MarkX (squares s) = count_mark MarkO (squares s))"
proof -
  define s where "s = run initial es"
  have inv: "turn_inv s" unfolding s_def using turn_inv_initial assms by (rule turn_inv_run)
  then have len: "length (elems (squares s)) = 9"
    and nu: "list_all (\<lambda>v. v \<noteq> Undefined) (elems (squares s))"
    and cnt: "count_mark MarkX (squares s)
      = count_mark MarkO (squares s) + (if xIsNext s then 0 else 1)"
    by (simp_all add: turn_inv_def is_board_def)
  have cells: "read_at (squares s) i = Null \<or> read_at (squares s) i = Mark MarkX
      \<or> read_at (squares s) i = Mark MarkO" if i: "0 \<le> i \<and> i \<le> 8" for i
  proof -
    have n: "nat i < length (elems (squares s))" using i len by linarith
    then have "elems (squares s) ! nat i \<noteq> Undefined" using nu by (simp add: list_all_length)
    moreover have "read_at (squares s) i = elems (squares s) ! nat i"
      using n i by (simp add: read_at_def is_index_def)
    ultimately have "read_at (squares s) i \<noteq> Undefined" by simp
    then show ?thesis
      by (cases "read_at (squares s) i") (auto intro: mark.exhaust)
  qed
  have diff: "int (count_mark MarkX (squares s)) - int (count_mark MarkO (squares s)) = 0
      \<or> int (count_mark MarkX (squares s)) - int (count_mark MarkO (squares s)) = 1"
    using cnt by (cases "xIsNext s") simp_all
  have turn: "currentPlayer s = MarkX
      \<longleftrightarrow> count_mark MarkX (squares s) = count_mark MarkO (squares s)"
    using cnt by (cases "xIsNext s") (simp_all add: currentPlayer_def)
  from len cells diff turn show ?thesis
    unfolding s_def [symmetric] Let_def by blast
qed

theorem reachable_board_and_turn_witness:
  "list_all in_range_event sample_events
   \<and> length (elems (squares (run initial sample_events))) = 9
   \<and> count_mark MarkX (squares (run initial sample_events)) = 1
   \<and> count_mark MarkO (squares (run initial sample_events)) = 0
   \<and> read_at (squares (run initial sample_events)) 8 \<noteq> Undefined
   \<and> currentPlayer (run initial sample_events) \<noteq> MarkX"
proof -
  have ev: "list_all in_range_event sample_events"
    by (simp add: sample_events_def in_range_event_def)
  have cx: "count_mark MarkX (squares (run initial sample_events)) = 1"
    unfolding sample_events_def by code_simp
  have co: "count_mark MarkO (squares (run initial sample_events)) = 0"
    unfolding sample_events_def by code_simp
  note inv = reachable_board_and_turn [OF ev, unfolded Let_def]
  then have "0 \<le> (8 :: int) \<and> (8 :: int) \<le> 8 \<longrightarrow>
      read_at (squares (run initial sample_events)) 8 = Null
      \<or> read_at (squares (run initial sample_events)) 8 = Mark MarkX
      \<or> read_at (squares (run initial sample_events)) 8 = Mark MarkO"
    by blast
  then have "read_at (squares (run initial sample_events)) 8 \<noteq> Undefined" by auto
  moreover have "length (elems (squares (run initial sample_events))) = 9
      \<and> currentPlayer (run initial sample_events) \<noteq> MarkX"
    using inv cx co by simp
  ultimately show ?thesis using ev cx co by simp
qed

section \<open>Clicks outside the nine squares\<close>

lemma loop_cong:
  assumes "\<forall>l\<in>set ls. case l of (x, y, z) \<Rightarrow>
     read_at a x = read_at b x \<and> read_at a y = read_at b y \<and> read_at a z = read_at b z"
  shows "calculateWinner_loop a ls = calculateWinner_loop b ls"
  using assms by (induction ls) auto

lemma WIN_LINES_in_range:
  "\<forall>l\<in>set WIN_LINES. case l of (x, y, z) \<Rightarrow>
     0 \<le> x \<and> x \<le> 8 \<and> 0 \<le> y \<and> y \<le> 8 \<and> 0 \<le> z \<and> z \<le> 8"
  by (simp add: WIN_LINES_def)

lemma calculateWinner_cong:
  assumes "\<forall>j. 0 \<le> j \<and> j \<le> 8 \<longrightarrow> read_at a j = read_at b j"
  shows "calculateWinner a = calculateWinner b"
  unfolding calculateWinner_def
proof (rule loop_cong, rule ballI)
  fix l assume "l \<in> set WIN_LINES"
  with WIN_LINES_in_range have "case l of (x, y, z) \<Rightarrow>
     0 \<le> x \<and> x \<le> 8 \<and> 0 \<le> y \<and> y \<le> 8 \<and> 0 \<le> z \<and> z \<le> 8" by blast
  with assms show "case l of (x, y, z) \<Rightarrow>
     read_at a x = read_at b x \<and> read_at a y = read_at b y \<and> read_at a z = read_at b z"
    by (cases l) simp
qed

lemma extras_ok_write:
  assumes "extras_ok a"
  shows "extras_ok (write_at (spread a) i (Mark m))"
proof -
  let ?xs = "elems a"
  have upd: "list_all (\<lambda>v. v \<noteq> Null) (drop 9 (?xs[n := Mark m]))" for n
  proof -
    have "set (drop 9 (?xs[n := Mark m])) \<subseteq> insert (Mark m) (set (drop 9 ?xs))"
    proof (cases "n < 9")
      case True
      then show ?thesis by (auto simp: drop_update_cancel)
    next
      case False
      then show ?thesis
        using set_update_subset_insert [of "drop 9 ?xs" "n - 9" "Mark m"]
        by (simp add: drop_update_swap)
    qed
    then show ?thesis using assms by (auto simp: extras_ok_def list_all_iff)
  qed
  have app: "list_all (\<lambda>v. v \<noteq> Null) (drop 9 (?xs @ replicate k Undefined @ [Mark m]))" for k
  proof -
    have "set (drop (9 - length ?xs) (replicate k Undefined @ [Mark m]))
        \<subseteq> set (replicate k Undefined @ [Mark m])"
      by (rule set_drop_subset)
    then have "set (drop 9 (?xs @ replicate k Undefined @ [Mark m]))
        \<subseteq> set (drop 9 ?xs) \<union> {Undefined, Mark m}"
      unfolding drop_append [of 9 ?xs] by auto
    then show ?thesis using assms by (auto simp: extras_ok_def list_all_iff)
  qed
  show ?thesis
  proof (cases "is_index i")
    case False
    then have "elems (write_at (spread a) i (Mark m)) = ?xs" by (simp add: elems_write)
    then show ?thesis using assms by (simp add: extras_ok_def)
  next
    case True
    show ?thesis
    proof (cases "nat i < length ?xs")
      case inside: True
      have "elems (write_at (spread a) i (Mark m)) = ?xs[nat i := Mark m]"
        using True inside by (simp add: elems_write)
      then show ?thesis using upd [of "nat i"] by (simp add: extras_ok_def)
    next
      case outside: False
      have "elems (write_at (spread a) i (Mark m))
          = ?xs @ replicate (nat i - length ?xs) Undefined @ [Mark m]"
        using True outside by (simp add: elems_write)
      then show ?thesis using app [of "nat i - length ?xs"] by (simp only: extras_ok_def)
    qed
  qed
qed

lemma extras_ok_click: "extras_ok (squares s) \<Longrightarrow> extras_ok (squares (handleSquareClickWithScore k s i))"
  by (cases "gameOver (squares s) \<or> truthy (read_at (squares s) i)")
     (simp_all add: click_rejected click_accepted(1) extras_ok_write)

lemma extras_ok_empty: "extras_ok empty_board"
  by (simp add: extras_ok_def empty_board_def)

lemma extras_ok_run: "extras_ok (squares s) \<Longrightarrow> extras_ok (squares (run s es))"
proof (induction es arbitrary: s)
  case Nil
  then show ?case by (simp add: run_def)
next
  case (Cons e es)
  have "extras_ok (squares (step s e))"
  proof (cases e)
    case (Click i k)
    then show ?thesis using Cons.prems by (simp add: extras_ok_click)
  next
    case (Restart k)
    then show ?thesis by (simp add: restartGame_def extras_ok_empty)
  qed
  then have "extras_ok (squares (run (step s e) es))" by (rule Cons.IH)
  then show ?case by (simp add: run_def)
qed

lemma not_full_write_outside:
  assumes ok: "extras_ok a" and nf: "\<not> isBoardFull a" and i: "i < 0 \<or> 8 < i"
  shows "\<not> isBoardFull (write_at (spread a) i v)"
proof -
  let ?xs = "elems a"
  from nf obtain n where n: "n < length ?xs" and null: "?xs ! n = Null"
    by (auto simp: isBoardFull_def list_all_length)
  have n9: "n < 9"
  proof (rule ccontr)
    assume "\<not> n < 9"
    then have "drop 9 ?xs ! (n - 9) = Null" and "n - 9 < length (drop 9 ?xs)"
      using n null by simp_all
    then show False using ok by (auto simp: extras_ok_def list_all_length)
  qed
  show ?thesis
  proof (cases "is_index i")
    case False
    then show ?thesis using nf by (simp add: write_at_def spread_def isBoardFull_def)
  next
    case True
    then have ne: "nat i \<noteq> n" using i n9 by (simp add: is_index_def)
    show ?thesis
    proof (cases "nat i < length ?xs")
      case True
      have "(?xs[nat i := v]) ! n = Null" using ne null by simp
      then have "\<not> list_all (\<lambda>v. v \<noteq> Null) (?xs[nat i := v])"
        using n by (auto simp: list_all_length)
      then show ?thesis using \<open>is_index i\<close> True
        by (simp add: write_at_def spread_def isBoardFull_def)
    next
      case False
      have "Null \<in> set ?xs" using n null by (metis nth_mem)
      then show ?thesis using \<open>is_index i\<close> False
        by (simp add: write_at_def spread_def isBoardFull_def list_all_iff)
    qed
  qed
qed

text \<open>
  C5 as stated, that a click at an index outside 0 to 8 leaves the state unchanged,
  fails: the handler has no range check. From the initial state a click at index 9 is
  accepted: the state changes, the turn passes to O and the array grows to ten slots.
\<close>

theorem out_of_range_click_changes_state:
  "handleSquareClickWithScore 0 initial 9 \<noteq> initial
   \<and> xIsNext initial
   \<and> \<not> xIsNext (handleSquareClickWithScore 0 initial 9)
   \<and> length (elems (squares initial)) = 9
   \<and> length (elems (squares (handleSquareClickWithScore 0 initial 9))) = 10
   \<and> read_at (squares (handleSquareClickWithScore 0 initial 9)) 9 = Mark MarkX"
proof -
  have *: "xIsNext initial
   \<and> \<not> xIsNext (handleSquareClickWithScore 0 initial 9)
   \<and> length (elems (squares initial)) = 9
   \<and> length (elems (squares (handleSquareClickWithScore 0 initial 9))) = 10
   \<and> read_at (squares (handleSquareClickWithScore 0 initial 9)) 9 = Mark MarkX"
    by code_simp
  then have "handleSquareClickWithScore 0 initial 9 \<noteq> initial" by auto
  with * show ?thesis by simp
qed

text \<open>
  C5, as the code has it. In every state reached from the initial state by clicks at
  any indices and restarts, a click at an index outside 0 to 8 leaves the three scores
  and the squares 0 to 8 unchanged. It leaves the whole state unchanged when the game
  is over or the slot at that index already holds a mark; otherwise it is accepted:
  the current player's mark is stored at that index and the turn flips.
\<close>

theorem out_of_range_click:
  assumes "i < 0 \<or> 8 < i"
  shows "let s = run initial es; s' = handleSquareClickWithScore k s i in
     scores s' = scores s
     \<and> (\<forall>j. 0 \<le> j \<and> j \<le> 8 \<longrightarrow> read_at (squares s') j = read_at (squares s) j)
     \<and> (gameOver (squares s) \<or> truthy (read_at (squares s) i) \<longrightarrow> s' = s)
     \<and> (\<not> gameOver (squares s) \<and> \<not> truthy (read_at (squares s) i) \<longrightarrow>
           read_at (squares s') i = Mark (currentPlayer s)
           \<and> xIsNext s' = (\<not> xIsNext s))"
proof -
  define s where "s = run initial es"
  define s' where "s' = handleSquareClickWithScore k s i"
  have ok: "extras_ok (squares s)"
    unfolding s_def by (rule extras_ok_run) (simp add: initial_def extras_ok_empty)
  have rej: "gameOver (squares s) \<or> truthy (read_at (squares s) i) \<longrightarrow> s' = s"
    unfolding s'_def by (simp add: click_rejected)
  have acc: "scores s' = scores s
      \<and> (\<forall>j. 0 \<le> j \<and> j \<le> 8 \<longrightarrow> read_at (squares s') j = read_at (squares s) j)
      \<and> read_at (squares s') i = Mark (currentPlayer s) \<and> xIsNext s' = (\<not> xIsNext s)"
    if a: "\<not> gameOver (squares s)" "\<not> truthy (read_at (squares s) i)"
  proof -
    have sq: "squares s' = write_at (spread (squares s)) i (Mark (currentPlayer s))"
      unfolding s'_def using a by (rule click_accepted(1))
    have cells: "\<forall>j. 0 \<le> j \<and> j \<le> 8 \<longrightarrow> read_at (squares s') j = read_at (squares s) j"
    proof (intro allI impI)
      fix j :: int
      assume j: "0 \<le> j \<and> j \<le> 8"
      then have "j \<noteq> i" using assms by auto
      then show "read_at (squares s') j = read_at (squares s) j"
        using j by (simp add: sq read_write_other read_spread in_range_is_index)
    qed
    then have same: "calculateWinner (squares s') = calculateWinner (squares s)"
      by (rule calculateWinner_cong)
    have nw: "\<not> truthy (winner (calculateWinner (squares s)))" and nf: "\<not> isBoardFull (squares s)"
      using a(1) by (auto simp: gameOver_def draw_def)
    have nf': "\<not> isBoardFull (squares s')"
      unfolding sq using ok nf assms by (rule not_full_write_outside)
    have "winner (calculateWinner (squares s')) = Null"
      using nw same by (simp add: truthy_winner)
    moreover have "\<not> draw (squares s')" using nf' by (simp add: draw_def)
    moreover have "scores s' = fold apply_score_update
               (concat (replicate (Suc k)
                  (case winner (calculateWinner (squares s')) of
                     Mark w \<Rightarrow> [AddWin w]
                   | _ \<Rightarrow> if draw (squares s') then [AddDraw] else [])))
               (scores s)"
      unfolding s'_def using a by (rule click_accepted(3))
    ultimately have "scores s' = scores s"
      using fold_enqueued(4) [of "Suc k" "scores s"] by simp
    moreover have "read_at (squares s') i = Mark (currentPlayer s)"
      by (simp add: sq read_write_same)
    moreover have "xIsNext s' = (\<not> xIsNext s)"
      unfolding s'_def using a by (rule click_accepted(2))
    ultimately show ?thesis using cells by blast
  qed
  have "scores s' = scores s
     \<and> (\<forall>j. 0 \<le> j \<and> j \<le> 8 \<longrightarrow> read_at (squares s') j = read_at (squares s) j)
     \<and> (gameOver (squares s) \<or> truthy (read_at (squares s) i) \<longrightarrow> s' = s)
     \<and> (\<not> gameOver (squares s) \<and> \<not> truthy (read_at (squares s) i) \<longrightarrow>
           read_at (squares s') i = Mark (currentPlayer s)
           \<and> xIsNext s' = (\<not> xIsNext s))"
  proof (cases "gameOver (squares s) \<or> truthy (read_at (squares s) i)")
    case True
    with rej have "s' = s" by blast
    with True show ?thesis by simp
  next
    case False
    with acc show ?thesis by blast
  qed
  then show ?thesis unfolding s'_def [symmetric] s_def [symmetric] Let_def .
qed

theorem out_of_range_click_witness:
  "(8 :: int) < 9
   \<and> scores (handleSquareClickWithScore 0 initial 9) = scores initial
   \<and> read_at (squares (handleSquareClickWithScore 0 initial 9)) 0 = read_at (squares initial) 0
   \<and> read_at (squares (handleSquareClickWithScore 0 initial 9)) 9 = Mark MarkX
   \<and> \<not> xIsNext (handleSquareClickWithScore 0 initial 9)
   \<and> truthy (read_at (squares (run initial [Click (- 1) 0])) (- 1))
   \<and> handleSquareClickWithScore 1 (run initial [Click (- 1) 0]) (- 1) = run initial [Click (- 1) 0]"
proof -
  have open9: "\<not> gameOver (squares initial) \<and> \<not> truthy (read_at (squares initial) 9)
      \<and> xIsNext initial"
    by code_simp
  have held: "truthy (read_at (squares (run initial [Click (- 1) 0])) (- 1))"
    by code_simp
  have "scores (handleSquareClickWithScore 0 initial 9) = scores initial
      \<and> read_at (squares (handleSquareClickWithScore 0 initial 9)) 0 = read_at (squares initial) 0
      \<and> read_at (squares (handleSquareClickWithScore 0 initial 9)) 9 = Mark MarkX
      \<and> \<not> xIsNext (handleSquareClickWithScore 0 initial 9)"
    using out_of_range_click [of 9 "[]" 0] open9
    unfolding Let_def by (simp add: run_def currentPlayer_def)
  moreover have "handleSquareClickWithScore 1 (run initial [Click (- 1) 0]) (- 1)
      = run initial [Click (- 1) 0]"
    using out_of_range_click [of "- 1" "[Click (- 1) 0]" 1] held
    unfolding Let_def by simp
  ultimately show ?thesis using held by simp
qed

end
